theory Spec2Isabelle
  imports Main "HOL-Library.Word" "HOL-Library.Monad_Syntax"
begin

unbundle bit_operations_syntax

section \<open>RemoteDevice: the pin and port cache of the remote-wiring layer\<close>

text \<open>
  A shallow embedding of \<^verbatim>\<open>source/RemoteWiring/RemoteDevice.cpp\<close>. The class keeps a
  cache of the remote board (pin modes, digital port bytes, subscription masks, analog
  values, the pin counts found by the capability query), talks to a \<^verbatim>\<open>UwpFirmata\<close>
  object and raises events. The model is sequential: the two recursive mutexes serialise
  the methods and are not represented.
\<close>

subsection \<open>Data model\<close>

type_synonym u8 = "8 word"
type_synonym u16 = "16 word"

text \<open>
  Modelled from the spec: the numeric values of the \<^verbatim>\<open>PinMode\<close> enumerators. The
  enumeration is declared in \<^verbatim>\<open>RemoteDevice.h\<close>, which is not among the sources. The
  spec's capability example fixes \<^verbatim>\<open>INPUT = 0x00\<close> and \<^verbatim>\<open>ANALOG = 0x02\<close>; the other
  values are those of the Firmata protocol the enumeration mirrors. The code stores and
  compares modes as \<^verbatim>\<open>uint8_t\<close> (\<^verbatim>\<open>static_cast<uint8_t>( PinMode::... )\<close>), so a mode
  is a byte here.
\<close>

definition INPUT :: u8 where "INPUT = 0x00"
definition OUTPUT :: u8 where "OUTPUT = 0x01"
definition ANALOG :: u8 where "ANALOG = 0x02"
definition PWM :: u8 where "PWM = 0x03"
definition SERVO :: u8 where "SERVO = 0x04"
definition I2C :: u8 where "I2C = 0x06"
definition IGNORED :: u8 where "IGNORED = 0x7F"

lemmas PinMode_defs = INPUT_def OUTPUT_def ANALOG_def PWM_def SERVO_def I2C_def IGNORED_def

text \<open>
  Modelled from the spec: \<^verbatim>\<open>PinState\<close> (declared in the missing header) has the two
  states \<^verbatim>\<open>LOW\<close> and \<^verbatim>\<open>HIGH\<close>; \<^verbatim>\<open>static_cast<uint8_t>( state_ )\<close> is 0 for
  \<^verbatim>\<open>LOW\<close> and 1 for \<^verbatim>\<open>HIGH\<close>, and \<^verbatim>\<open>static_cast<PinState>( b )\<close> of a
  \<^verbatim>\<open>bool\<close> is \<^verbatim>\<open>HIGH\<close> for true.
\<close>

datatype PinState = LOW | HIGH

fun PinState_byte :: "PinState \<Rightarrow> u8" where
  "PinState_byte LOW = 0"
| "PinState_byte HIGH = 1"

definition PinState_of_bool :: "bool \<Rightarrow> PinState" where
  "PinState_of_bool b = (if b then HIGH else LOW)"

text \<open>
  The calls made on the \<^verbatim>\<open>UwpFirmata\<close> object, in order. The command bytes
  (\<^verbatim>\<open>Firmata::Command::SET_PIN_MODE\<close>, ...) are declared outside the sources, so a
  written command byte is kept symbolic, with the bits or-ed into it.
\<close>

datatype Command = SET_PIN_MODE | REPORT_DIGITAL_PIN

datatype firmata_call =
    Lock
  | Unlock
  | Flush
  | Write u8
  | WriteCommand Command u8
  | SendAnalog u8 u16
  | SendDigitalPort nat u8

text \<open>The events the device raises to its listeners.\<close>

datatype event =
    DigitalPinUpdated u8 PinState
  | AnalogPinUpdated u8 u16
  | DeviceReady

text \<open>
  The member variables. The four arrays have fixed sizes (\<^verbatim>\<open>initialize\<close> clears them
  with \<^verbatim>\<open>sizeof\<close>) given by constants of the missing header; here each array is a
  list, its length the array's size.
\<close>

text \<open>
  Modelled from the spec: the types of \<^verbatim>\<open>_total_pins\<close>, \<^verbatim>\<open>_analog_offset\<close> and
  \<^verbatim>\<open>_num_analog_pins\<close>, declared in the missing header; the spec gives them as
  unsigned 32-bit counts. They are natural numbers here: the parser increments each at
  most once per payload byte (lemma \<open>scan_pins_bounds\<close>), and a payload's length is a
  32-bit value, so none of them wraps. Where the code cuts a sum with
  \<^verbatim>\<open>_analog_offset\<close> to 8 bits, the model does.
\<close>

record RemoteDevice =
  pin_mode :: "u8 list"
  digital_port :: "u8 list"
  subscribed_ports :: "u8 list"
  analog_pins :: "u16 list"
  total_pins :: nat
  analog_offset :: nat
  num_analog_pins :: nat
  firmata :: "firmata_call list"
  events :: "event list"

text \<open>
  An array access. C++ leaves an access outside the array undefined; the model makes it
  the error \<open>None\<close>, which every method then returns.
\<close>

definition rd :: "'a list \<Rightarrow> nat \<Rightarrow> 'a option" where
  "rd xs i = (if i < length xs then Some (xs ! i) else None)"

definition wr :: "'a list \<Rightarrow> nat \<Rightarrow> 'a \<Rightarrow> 'a list option" where
  "wr xs i v = (if i < length xs then Some (xs[i := v]) else None)"

definition send :: "firmata_call list \<Rightarrow> 'a RemoteDevice_scheme \<Rightarrow> 'a RemoteDevice_scheme" where
  "send cs s = s\<lparr>firmata := firmata s @ cs\<rparr>"

definition raise_events :: "event list \<Rightarrow> 'a RemoteDevice_scheme \<Rightarrow> 'a RemoteDevice_scheme" where
  "raise_events es s = s\<lparr>events := events s @ es\<rparr>"

subsection \<open>initialize\<close>

text \<open>
  \<^verbatim>\<open>initialize\<close> (lines 380-394): the three value arrays are zeroed and every pin mode
  set to \<^verbatim>\<open>OUTPUT\<close>, over the whole of each array. (The registration of the report
  callbacks is the wiring that lets \<open>onDigitalReport\<close> and \<open>onAnalogReport\<close> run.)
\<close>

definition initialize :: "RemoteDevice \<Rightarrow> RemoteDevice" where
  "initialize s =
     s\<lparr>digital_port := replicate (length (digital_port s)) 0,
       subscribed_ports := replicate (length (subscribed_ports s)) 0,
       analog_pins := replicate (length (analog_pins s)) 0,
       pin_mode := replicate (length (pin_mode s)) OUTPUT\<rparr>"

subsection \<open>The capability-response parser\<close>

definition END_OF_PIN_VALUE :: u8 where
  "END_OF_PIN_VALUE = 0x7F"

text \<open>
  The inner \<^verbatim>\<open>while\<close> loop of \<^verbatim>\<open>onPinCapabilityResponseReceived\<close> (lines 468-501):
  from index \<open>i\<close> it skips capability bytes until the payload ends or a terminator is
  under the index, and returns the index it stops at. \<^verbatim>\<open>ANALOG\<close> falls through into
  the two-byte skip.
\<close>

function scan_pin :: "u8 list \<Rightarrow> nat \<Rightarrow> RemoteDevice \<Rightarrow> nat \<times> RemoteDevice" where
  "scan_pin data i s =
     (if i < length data \<and> data ! i \<noteq> END_OF_PIN_VALUE then
        (if data ! i = INPUT then scan_pin data (i + 4) s
         else if data ! i = ANALOG then
           scan_pin data (i + 2)
             ((if analog_offset s = 0 then s\<lparr>analog_offset := total_pins s\<rparr> else s)
                \<lparr>num_analog_pins := num_analog_pins s + 1\<rparr>)
         else if data ! i = PWM \<or> data ! i = SERVO \<or> data ! i = I2C then
           scan_pin data (i + 2) s
         else scan_pin data (i + 1) s)
      else (i, s))"
  by pat_completeness auto
termination
  by (relation "measure (\<lambda>(data, i, s). length data - i)") auto

declare scan_pin.simps [simp del]

lemma scan_pin_ge: "i \<le> fst (scan_pin data i s)"
proof (induction data i s rule: scan_pin.induct)
  case (1 data i s)
  show ?case
  proof (cases "i < length data \<and> data ! i \<noteq> END_OF_PIN_VALUE")
    case False
    then show ?thesis by (subst scan_pin.simps) auto
  next
    case True
    then show ?thesis
      using "1.IH" by (subst scan_pin.simps) auto
  qed
qed

text \<open>
  The outer \<^verbatim>\<open>for\<close> loop (lines 466-503): one pass of the inner loop, then
  \<^verbatim>\<open>_total_pins++\<close> and \<^verbatim>\<open>++i\<close>.
\<close>

function scan_pins :: "u8 list \<Rightarrow> nat \<Rightarrow> RemoteDevice \<Rightarrow> RemoteDevice" where
  "scan_pins data i s =
     (if i < length data then
        (case scan_pin data i s of
           (j, s') \<Rightarrow> scan_pins data (j + 1) (s'\<lparr>total_pins := total_pins s' + 1\<rparr>))
      else s)"
  by pat_completeness auto
termination
proof (relation "measure (\<lambda>(data, i, s). length data - i)", goal_cases)
  case 1
  show ?case by simp
next
  case (2 data i s j s')
  have "i \<le> fst (scan_pin data i s)" by (rule scan_pin_ge)
  with 2 have "i \<le> j" by (metis fst_conv)
  with 2 show ?case by simp
qed

declare scan_pins.simps [simp del]

text \<open>
  \<^verbatim>\<open>onPinCapabilityResponseReceived\<close> (lines 446-507): the payload is copied out of the
  buffer, the three counts are reset, the payload is scanned, the cache is initialised
  and the device-ready event raised.
\<close>

definition onPinCapabilityResponseReceived :: "u8 list \<Rightarrow> RemoteDevice \<Rightarrow> RemoteDevice" where
  "onPinCapabilityResponseReceived data s =
     raise_events [DeviceReady]
       (initialize
          (scan_pins data 0 (s\<lparr>total_pins := 0, analog_offset := 0, num_analog_pins := 0\<rparr>)))"


subsection \<open>Pin names\<close>

text \<open>
  \<^verbatim>\<open>wcstol( data + 1, nullptr, 10 )\<close> of the C library, as the C standard describes it:
  leading white space is skipped, one sign is accepted, then the longest run of decimal
  digits is converted; without a digit the result is 0; a value outside \<^verbatim>\<open>long\<close> is
  clamped (\<^verbatim>\<open>long\<close> has 32 bits on the platform of this code). What follows the
  digits is ignored, since no end pointer is asked for. A \<^verbatim>\<open>Platform::String\<close> holds
  16-bit characters; names are modelled as \<open>string\<close>, which covers the characters up to
  255, with the white space of the C locale.
\<close>

definition iswspace :: "char \<Rightarrow> bool" where
  "iswspace c = (of_char c \<in> {0x20, 0x09, 0x0A, 0x0B, 0x0C, 0x0D :: nat})"

definition iswdigit :: "char \<Rightarrow> bool" where
  "iswdigit c = (48 \<le> (of_char c :: nat) \<and> (of_char c :: nat) \<le> 57)"

definition digit_value :: "char \<Rightarrow> int" where
  "digit_value c = int (of_char c) - 48"

definition decimal :: "string \<Rightarrow> int" where
  "decimal ds = foldl (\<lambda>a c. 10 * a + digit_value c) 0 ds"

definition LONG_MAX :: int where "LONG_MAX = 2147483647"
definition LONG_MIN :: int where "LONG_MIN = - 2147483648"

definition wcstol :: "string \<Rightarrow> int" where
  "wcstol nptr =
     (let s1 = dropWhile iswspace nptr;
          negative = (s1 \<noteq> [] \<and> hd s1 = CHR ''-'');
          s2 = (if s1 \<noteq> [] \<and> (hd s1 = CHR ''-'' \<or> hd s1 = CHR ''+'') then tl s1 else s1);
          number = decimal (takeWhile iswdigit s2)
      in if negative then max LONG_MIN (- number) else min LONG_MAX number)"

text \<open>
  \<^verbatim>\<open>parsePinFromAnalogString\<close> (lines 509-534). The failure value is
  \<^verbatim>\<open>static_cast<uint8_t>( -1 )\<close>, that is \<open>0xFF\<close>; a null string is the empty string.
  The result is the parsed number cast to \<^verbatim>\<open>uint8_t\<close>.
\<close>

definition parsePinFromAnalogString :: "string \<Rightarrow> u8" where
  "parsePinFromAnalogString str =
     (if length str < 2 then 0xFF
      else if \<not> (str ! 0 = CHR ''a'' \<or> str ! 0 = CHR ''A'') then 0xFF
      else
        (let parsed_num = wcstol (drop 1 str)
         in if parsed_num = 0 \<and> str ! 1 \<noteq> CHR ''0'' then 0xFF
            else word_of_int parsed_num))"

subsection \<open>The public methods\<close>

text \<open>\<^verbatim>\<open>getPinMap\<close> (lines 396-411): the port of a pin and the pin's bit in the port.\<close>

definition getPinMap :: "u8 \<Rightarrow> nat \<times> u8" where
  "getPinMap pin = (unat pin div 8, push_bit (unat pin mod 8) 1)"

text \<open>
  \<^verbatim>\<open>pinMode( uint8_t, PinMode )\<close> (lines 237-281). The mode arrives as its byte. The
  subscription mask of the port gains the pin's bit when the new mode is \<^verbatim>\<open>INPUT\<close> and
  loses it when the old mode was; a pin that becomes an output starts low; the cached
  mode is written last.
\<close>

definition pinMode :: "u8 \<Rightarrow> u8 \<Rightarrow> RemoteDevice \<Rightarrow> RemoteDevice option" where
  "pinMode pin mode s =
     (case getPinMap pin of
        (port, port_mask) \<Rightarrow> do {
          let s1 = send [Lock, WriteCommand SET_PIN_MODE 0, Write pin, Write mode] s;
          s2 \<leftarrow>
            (if mode = INPUT then do {
               m \<leftarrow> rd (subscribed_ports s1) port;
               Some (send [WriteCommand REPORT_DIGITAL_PIN (of_nat port AND 0x0F),
                           Write (m OR port_mask)]
                      (s1\<lparr>subscribed_ports := (subscribed_ports s1)[port := m OR port_mask]\<rparr>))
             }
             else do {
               old \<leftarrow> rd (pin_mode s1) (unat pin);
               if old = INPUT then do {
                 m \<leftarrow> rd (subscribed_ports s1) port;
                 Some (send [WriteCommand REPORT_DIGITAL_PIN (of_nat port AND 0x0F),
                             Write (m AND NOT port_mask)]
                        (s1\<lparr>subscribed_ports :=
                              (subscribed_ports s1)[port := m AND NOT port_mask]\<rparr>))
               }
               else Some s1
             });
          let s3 = send [Flush, Unlock] s2;
          s4 \<leftarrow>
            (if mode = OUTPUT then do {
               old \<leftarrow> rd (pin_mode s3) (unat pin);
               if old \<noteq> OUTPUT then do {
                 d \<leftarrow> rd (digital_port s3) port;
                 Some (s3\<lparr>digital_port := (digital_port s3)[port := d AND NOT port_mask]\<rparr>)
               }
               else Some s3
             }
             else Some s3);
          pm \<leftarrow> wr (pin_mode s4) (unat pin) mode;
          Some (s4\<lparr>pin_mode := pm\<rparr>)
        })"

text \<open>
  \<^verbatim>\<open>analogRead( uint8_t )\<close> (lines 89-118). \<open>analogRead_value\<close> is the tail of the
  method (lines 112-117): the bounds check against \<^verbatim>\<open>_num_analog_pins\<close> and the read
  of the cached value. The sentinel \<^verbatim>\<open>uint16_t val = -1\<close> is \<open>0xFFFF\<close>. The pin whose
  mode is consulted is \<^verbatim>\<open>pin_ + _analog_offset\<close>, cut to 8 bits.
\<close>

definition analogRead_value :: "u8 \<Rightarrow> RemoteDevice \<Rightarrow> u16 option" where
  "analogRead_value pin s =
     (if unat pin < num_analog_pins s then rd (analog_pins s) (unat pin) else Some 0xFFFF)"

definition analogRead :: "u8 \<Rightarrow> RemoteDevice \<Rightarrow> (u16 \<times> RemoteDevice) option" where
  "analogRead pin s =
     (let analog_pin_num = pin + of_nat (analog_offset s) in do {
        m \<leftarrow> rd (pin_mode s) (unat analog_pin_num);
        if m \<noteq> ANALOG then
          (if m = INPUT then do {
             s1 \<leftarrow> pinMode analog_pin_num ANALOG s;
             v \<leftarrow> analogRead_value pin s1;
             Some (v, s1)
           }
           else Some (0xFFFF, s))
        else do {
          v \<leftarrow> analogRead_value pin s;
          Some (v, s)
        }
      })"

text \<open>
  \<^verbatim>\<open>analogRead( Platform::String^ )\<close> (lines 120-132): the parsed number plus
  \<^verbatim>\<open>_analog_offset\<close>, cut to 8 bits, is handed to the numeric overload.
\<close>

definition analogRead_named :: "string \<Rightarrow> RemoteDevice \<Rightarrow> (u16 \<times> RemoteDevice) option" where
  "analogRead_named analog_pin s =
     (let parsed_pin = parsePinFromAnalogString analog_pin
      in if parsed_pin = 0xFF then Some (0xFFFF, s)
         else analogRead (parsed_pin + of_nat (analog_offset s)) s)"

text \<open>\<^verbatim>\<open>analogWrite\<close> (lines 134-154).\<close>

definition analogWrite :: "u8 \<Rightarrow> u16 \<Rightarrow> RemoteDevice \<Rightarrow> RemoteDevice option" where
  "analogWrite pin val s = do {
     m \<leftarrow> rd (pin_mode s) (unat pin);
     if m \<noteq> PWM then
       (if m = OUTPUT then do {
          s1 \<leftarrow> pinMode pin PWM s;
          pm \<leftarrow> wr (pin_mode s1) (unat pin) PWM;
          Some (send [SendAnalog pin val] (s1\<lparr>pin_mode := pm\<rparr>))
        }
        else Some s)
     else Some (send [SendAnalog pin val] s)
   }"

text \<open>\<^verbatim>\<open>digitalRead\<close> (lines 157-176): the pin's bit of the cached port byte.\<close>

definition digitalRead :: "u8 \<Rightarrow> RemoteDevice \<Rightarrow> (PinState \<times> RemoteDevice) option" where
  "digitalRead pin s =
     (case getPinMap pin of
        (port, port_mask) \<Rightarrow> do {
          m \<leftarrow> rd (pin_mode s) (unat pin);
          s1 \<leftarrow> (if m \<noteq> INPUT then (if m = ANALOG then pinMode pin INPUT s else Some s)
                 else Some s);
          d \<leftarrow> rd (digital_port s1) port;
          Some (PinState_of_bool (d AND port_mask > 0), s1)
        })"

text \<open>
  \<^verbatim>\<open>digitalWrite\<close> (lines 179-209). \<open>digitalWrite_port\<close> is the tail of the method
  (lines 200-207): the pin's bit is set or cleared in the cached port byte and the whole
  byte is sent.
\<close>

definition digitalWrite_port :: "nat \<Rightarrow> u8 \<Rightarrow> PinState \<Rightarrow> RemoteDevice \<Rightarrow> RemoteDevice option" where
  "digitalWrite_port port port_mask state s = do {
     d \<leftarrow> rd (digital_port s) port;
     let d' = (if PinState_byte state \<noteq> 0 then d OR port_mask else d AND NOT port_mask);
     Some (send [SendDigitalPort port d'] (s\<lparr>digital_port := (digital_port s)[port := d']\<rparr>))
   }"

definition digitalWrite :: "u8 \<Rightarrow> PinState \<Rightarrow> RemoteDevice \<Rightarrow> RemoteDevice option" where
  "digitalWrite pin state s =
     (case getPinMap pin of
        (port, port_mask) \<Rightarrow> do {
          m \<leftarrow> rd (pin_mode s) (unat pin);
          if m \<noteq> OUTPUT then
            (if m = PWM then do {
               s1 \<leftarrow> pinMode pin OUTPUT s;
               digitalWrite_port port port_mask state s1
             }
             else Some s)
          else digitalWrite_port port port_mask state s
        })"

text \<open>\<^verbatim>\<open>getPinMode\<close> (lines 212-234) and \<^verbatim>\<open>pinMode( Platform::String^, PinMode )\<close> (lines 283-296).\<close>

definition getPinMode :: "u8 \<Rightarrow> RemoteDevice \<Rightarrow> u8 option" where
  "getPinMode pin s = rd (pin_mode s) (unat pin)"

definition getPinMode_named :: "string \<Rightarrow> RemoteDevice \<Rightarrow> u8 option" where
  "getPinMode_named analog_pin s =
     (let parsed_pin = parsePinFromAnalogString analog_pin
      in if parsed_pin = 0xFF then Some IGNORED
         else getPinMode (parsed_pin + of_nat (analog_offset s)) s)"

definition pinMode_named :: "string \<Rightarrow> u8 \<Rightarrow> RemoteDevice \<Rightarrow> RemoteDevice option" where
  "pinMode_named analog_pin mode s =
     (let parsed_pin = parsePinFromAnalogString analog_pin
      in if parsed_pin = 0xFF then Some s
         else pinMode (parsed_pin + of_nat (analog_offset s)) mode s)"

subsection \<open>The report callbacks\<close>

text \<open>
  The event loop of \<^verbatim>\<open>onDigitalReport\<close> (lines 327-336): one event for each set bit of
  \<^verbatim>\<open>port_xor\<close>, lowest bit first; the pin number \<^verbatim>\<open>( port * 8 ) + i\<close> is cut to the
  8 bits of the event's pin argument.
\<close>

function digital_events :: "u8 \<Rightarrow> u8 \<Rightarrow> u8 \<Rightarrow> u8 \<Rightarrow> event list" where
  "digital_events port port_val port_xor i =
     (if port_xor > 0 then
        (if port_xor AND 0x01 \<noteq> 0 then
           [DigitalPinUpdated (port * 8 + i)
              (if drop_bit (unat i) port_val AND 0x01 > 0 then HIGH else LOW)]
         else [])
        @ digital_events port port_val (drop_bit 1 port_xor) (i + 1)
      else [])"
  by pat_completeness auto
termination
proof (relation "measure (\<lambda>(port, port_val, port_xor, i). unat port_xor)", goal_cases)
  case 1
  show ?case by simp
next
  case (2 port port_val port_xor i)
  then have "unat port_xor \<noteq> 0" by (simp add: unat_eq_0 word_greater_zero_iff)
  then have "unat port_xor div 2 < unat port_xor" by simp
  then show ?case by (simp add: unat_drop_bit_eq drop_bit_eq_div unat_div)
qed

declare digital_events.simps [simp del]

text \<open>
  \<^verbatim>\<open>onDigitalReport\<close> (lines 304-337). The bits of output pins that are high are or-ed
  into the reported byte, the result replaces the cached byte, and every changed bit
  raises an event.
\<close>

definition onDigitalReport :: "u8 \<Rightarrow> u16 \<Rightarrow> RemoteDevice \<Rightarrow> RemoteDevice option" where
  "onDigitalReport port val s = do {
     sub \<leftarrow> rd (subscribed_ports s) (unat port);
     d \<leftarrow> rd (digital_port s) (unat port);
     let output_state = NOT sub AND d;
     let port_val = ucast val OR output_state;
     let port_xor = port_val XOR d;
     Some (raise_events (digital_events port port_val port_xor 0)
            (s\<lparr>digital_port := (digital_port s)[unat port := port_val]\<rparr>))
   }"

text \<open>\<^verbatim>\<open>onAnalogReport\<close> (lines 340-355): the value is stored, then the event raised.\<close>

definition onAnalogReport :: "u8 \<Rightarrow> u16 \<Rightarrow> RemoteDevice \<Rightarrow> RemoteDevice option" where
  "onAnalogReport pin val s = do {
     a \<leftarrow> wr (analog_pins s) (unat pin) val;
     Some (raise_events [AnalogPinUpdated pin val] (s\<lparr>analog_pins := a\<rparr>))
   }"

subsection \<open>The device over time\<close>

text \<open>
  What can happen to a device: a call of a public method, or a callback from the
  \<^verbatim>\<open>UwpFirmata\<close> object. \<open>perform\<close> runs one of them and keeps the new state only.
\<close>

datatype action =
    PinMode u8 u8
  | PinModeNamed string u8
  | DigitalWrite u8 PinState
  | DigitalRead u8
  | AnalogWrite u8 u16
  | AnalogRead u8
  | AnalogReadNamed string
  | GetPinMode u8
  | GetPinModeNamed string
  | DigitalReport u8 u16
  | AnalogReport u8 u16
  | CapabilityResponse "u8 list"

fun perform :: "action \<Rightarrow> RemoteDevice \<Rightarrow> RemoteDevice option" where
  "perform (PinMode pin mode) s = pinMode pin mode s"
| "perform (PinModeNamed analog_pin mode) s = pinMode_named analog_pin mode s"
| "perform (DigitalWrite pin state) s = digitalWrite pin state s"
| "perform (DigitalRead pin) s = map_option snd (digitalRead pin s)"
| "perform (AnalogWrite pin val) s = analogWrite pin val s"
| "perform (AnalogRead pin) s = map_option snd (analogRead pin s)"
| "perform (AnalogReadNamed analog_pin) s = map_option snd (analogRead_named analog_pin s)"
| "perform (GetPinMode pin) s = map_option (\<lambda>m. s) (getPinMode pin s)"
| "perform (GetPinModeNamed analog_pin) s = map_option (\<lambda>m. s) (getPinMode_named analog_pin s)"
| "perform (DigitalReport port val) s = onDigitalReport port val s"
| "perform (AnalogReport pin val) s = onAnalogReport pin val s"
| "perform (CapabilityResponse data) s = Some (onPinCapabilityResponseReceived data s)"

text \<open>
  The states a device goes through: the cache is first initialised by a capability
  response (whatever the memory of the object held before), and then any action whose
  array accesses stay in range leads to the next state.
\<close>

inductive reachable :: "RemoteDevice \<Rightarrow> bool" where
  initialized: "reachable (onPinCapabilityResponseReceived data s0)"
| performed: "reachable s \<Longrightarrow> perform a s = Some s' \<Longrightarrow> reachable s'"

text \<open>
  The invariant of the subscription masks: the bit of pin \<open>p\<close> in the mask of its port
  is set exactly when the cached mode of \<open>p\<close> is \<^verbatim>\<open>INPUT\<close>, for every pin that has a
  cached mode and a port mask.
\<close>

definition subscription_invariant :: "RemoteDevice \<Rightarrow> bool" where
  "subscription_invariant s =
     (\<forall>p \<in> {0..<length (pin_mode s)}.
        p div 8 < length (subscribed_ports s) \<longrightarrow>
        (subscribed_ports s ! (p div 8) AND push_bit (p mod 8) 1 \<noteq> 0)
          = (pin_mode s ! p = INPUT))"

text \<open>
  The payload seen as the spec describes it (section 4.1), for comparison with the scan
  above: a capability byte has a field width, a terminator closes a descriptor. The
  bytes are read once, left to right; \<open>k\<close> bytes are still to be skipped, and
  \<open>opened\<close> says that a descriptor has been entered and not yet terminated. The result
  is the number of terminated descriptors and whether the payload ends inside one.
\<close>

definition capability_width :: "u8 \<Rightarrow> nat" where
  "capability_width b =
     (if b = INPUT then 4
      else if b = ANALOG \<or> b = PWM \<or> b = SERVO \<or> b = I2C then 2
      else 1)"

fun descriptor_scan :: "nat \<Rightarrow> bool \<Rightarrow> u8 list \<Rightarrow> nat \<times> bool" where
  "descriptor_scan k opened [] = (0, opened)"
| "descriptor_scan (Suc k) opened (x # xs) = descriptor_scan k opened xs"
| "descriptor_scan 0 opened (x # xs) =
     (if x = END_OF_PIN_VALUE then
        (case descriptor_scan 0 False xs of (n, t) \<Rightarrow> (Suc n, t))
      else descriptor_scan (capability_width x - 1) True xs)"

definition complete_descriptors :: "u8 list \<Rightarrow> nat" where
  "complete_descriptors data = fst (descriptor_scan 0 False data)"

definition incomplete_tail :: "u8 list \<Rightarrow> bool" where
  "incomplete_tail data = snd (descriptor_scan 0 False data)"

text \<open>The pins the scan counts: the terminated descriptors, and one more for an open tail.\<close>

definition pin_count :: "nat \<Rightarrow> bool \<Rightarrow> u8 list \<Rightarrow> nat" where
  "pin_count k opened xs = (case descriptor_scan k opened xs of (n, t) \<Rightarrow> n + (if t then 1 else 0))"

text \<open>What one capability byte does to the counts: the body of the \<^verbatim>\<open>ANALOG\<close> case.\<close>

definition note_capability :: "u8 \<Rightarrow> RemoteDevice \<Rightarrow> RemoteDevice" where
  "note_capability b s =
     (if b = ANALOG then
        (if analog_offset s = 0 then s\<lparr>analog_offset := total_pins s\<rparr> else s)
          \<lparr>num_analog_pins := num_analog_pins s + 1\<rparr>
      else s)"

subsection \<open>A concrete device\<close>

text \<open>
  A device object for the concrete runs below: 128 pin modes, 16 ports and 6 analog
  values, as before the first capability response (the contents are whatever the
  memory held; zero here), and the same device once an empty capability response has
  initialised the cache.
\<close>

definition raw_device :: RemoteDevice where
  "raw_device =
     \<lparr>pin_mode = replicate 128 0, digital_port = replicate 16 0,
      subscribed_ports = replicate 16 0, analog_pins = replicate 6 0,
      total_pins = 0, analog_offset = 0, num_analog_pins = 0,
      firmata = [], events = []\<rparr>"

definition ready_device :: RemoteDevice where
  "ready_device = onPinCapabilityResponseReceived [] raw_device"

text \<open>
  A board of four pins, as its capability response describes it: pins 0 and 1 are
  digital only (input and output), pins 2 and 3 can also be read as analog pins.
\<close>

definition small_board :: RemoteDevice where
  "small_board =
     onPinCapabilityResponseReceived
       [0x00, 0x01, 0x01, 0x01, 0x7F,
        0x00, 0x01, 0x01, 0x01, 0x7F,
        0x00, 0x01, 0x01, 0x01, 0x02, 0x0A, 0x7F,
        0x00, 0x01, 0x01, 0x01, 0x02, 0x0A, 0x7F]
       raw_device"

section \<open>The capability-response parser: results\<close>

lemmas parser_eval =
  onPinCapabilityResponseReceived_def scan_pins.simps scan_pin.simps initialize_def
  raise_events_def END_OF_PIN_VALUE_def PinMode_defs

subsection \<open>The scan against the descriptor view\<close>

lemma scan_pin_stop:
  assumes "\<not> (i < length data \<and> data ! i \<noteq> END_OF_PIN_VALUE)"
  shows "scan_pin data i s = (i, s)"
  by (subst scan_pin.simps) (simp only: assms if_False)

lemma capability_branches:
  "(if x = INPUT then f (i + 4) s
    else if x = ANALOG then
      f (i + 2) ((if analog_offset s = 0 then s\<lparr>analog_offset := total_pins s\<rparr> else s)
                   \<lparr>num_analog_pins := num_analog_pins s + 1\<rparr>)
    else if x = PWM \<or> x = SERVO \<or> x = I2C then f (i + 2) s
    else f (i + 1) s)
   = f (i + capability_width x) (note_capability x s)"
  by (cases "x = INPUT"; cases "x = ANALOG"; cases "x = PWM"; cases "x = SERVO"; cases "x = I2C")
    (simp_all add: capability_width_def note_capability_def PinMode_defs)

lemma scan_pin_unfold:
  assumes "i < length data" "data ! i \<noteq> END_OF_PIN_VALUE"
  shows "scan_pin data i s
         = scan_pin data (i + capability_width (data ! i)) (note_capability (data ! i) s)"
proof -
  have c: "i < length data \<and> data ! i \<noteq> END_OF_PIN_VALUE" using assms by simp
  show ?thesis
    by (subst scan_pin.simps) (simp only: c if_True capability_branches simp_thms)
qed

lemma capability_width_pos: "0 < capability_width b"
  by (simp add: capability_width_def)

lemma scan_pin_induct2 [case_names stop step]:
  assumes stop: "\<And>i s. \<not> (i < length data \<and> data ! i \<noteq> END_OF_PIN_VALUE) \<Longrightarrow> P i s"
    and step: "\<And>i s. i < length data \<Longrightarrow> data ! i \<noteq> END_OF_PIN_VALUE \<Longrightarrow>
        P (i + capability_width (data ! i)) (note_capability (data ! i) s) \<Longrightarrow> P i s"
  shows "P i s"
proof -
  have "\<forall>s. P i s"
  proof (induction i rule: measure_induct_rule [where f = "\<lambda>i. length data - i"])
    case (less i)
    show ?case
    proof
      fix s
      show "P i s"
      proof (cases "i < length data \<and> data ! i \<noteq> END_OF_PIN_VALUE")
        case False
        then show ?thesis by (rule stop)
      next
        case True
        have "length data - (i + capability_width (data ! i)) < length data - i"
          using True capability_width_pos [of "data ! i"] by linarith
        then have "P (i + capability_width (data ! i)) (note_capability (data ! i) s)"
          using less by blast
        with True show ?thesis by (auto intro: step)
      qed
    qed
  qed
  then show ?thesis by blast
qed

lemma descriptor_scan_numeral [simp]:
  "descriptor_scan (numeral n) opened (x # xs) = descriptor_scan (pred_numeral n) opened xs"
  by (simp add: numeral_eq_Suc)

lemma descriptor_scan_skip: "descriptor_scan k opened xs = descriptor_scan 0 opened (drop k xs)"
proof (induction xs arbitrary: k)
  case Nil
  then show ?case by (cases k) simp_all
next
  case (Cons x xs)
  then show ?case by (cases k) simp_all
qed

lemma descriptor_scan_step:
  assumes "i < length data" "data ! i \<noteq> END_OF_PIN_VALUE"
  shows "descriptor_scan 0 opened (drop i data)
         = descriptor_scan 0 True (drop (i + capability_width (data ! i)) data)"
proof -
  have w: "0 < capability_width (data ! i)" by (simp add: capability_width_def)
  have "drop i data = data ! i # drop (Suc i) data"
    using assms(1) by (simp add: Cons_nth_drop_Suc)
  then have "descriptor_scan 0 opened (drop i data)
      = descriptor_scan (capability_width (data ! i) - 1) True (drop (Suc i) data)"
    using assms(2) by simp
  also have "\<dots> = descriptor_scan 0 True (drop (capability_width (data ! i) - 1) (drop (Suc i) data))"
    by (rule descriptor_scan_skip)
  also have "drop (capability_width (data ! i) - 1) (drop (Suc i) data)
      = drop (i + capability_width (data ! i)) data"
    using w by (simp add: add.commute)
  finally show ?thesis .
qed

lemma descriptor_scan_stop:
  assumes "length data \<le> j \<or> data ! j = END_OF_PIN_VALUE"
  shows "pin_count 0 True (drop j data) = Suc (pin_count 0 False (drop (Suc j) data))"
proof (cases "j < length data")
  case False
  then show ?thesis by (simp add: pin_count_def)
next
  case True
  with assms have "drop j data = END_OF_PIN_VALUE # drop (Suc j) data"
    by (metis Cons_nth_drop_Suc not_le)
  then show ?thesis by (simp add: pin_count_def split: prod.splits)
qed


lemma note_capability_total_pins [simp]: "total_pins (note_capability b s) = total_pins s"
  by (simp add: note_capability_def)

lemma scan_pin_total_pins: "total_pins (snd (scan_pin data i s)) = total_pins s"
proof (induction i s rule: scan_pin_induct2 [where data = data])
  case (stop i s)
  then show ?case by (simp add: scan_pin_stop)
next
  case (step i s)
  then show ?case by (simp add: scan_pin_unfold)
qed

lemma scan_pin_exit:
  "length data \<le> fst (scan_pin data i s) \<or> data ! fst (scan_pin data i s) = END_OF_PIN_VALUE"
proof (induction i s rule: scan_pin_induct2 [where data = data])
  case (stop i s)
  then show ?case by (auto simp: scan_pin_stop)
next
  case (step i s)
  then show ?case by (simp add: scan_pin_unfold)
qed

lemma scan_pin_descriptor:
  "descriptor_scan 0 True (drop i data)
   = descriptor_scan 0 True (drop (fst (scan_pin data i s)) data)"
proof (induction i s rule: scan_pin_induct2 [where data = data])
  case (stop i s)
  then show ?case by (simp add: scan_pin_stop)
next
  case (step i s)
  then show ?case by (simp add: scan_pin_unfold descriptor_scan_step)
qed

lemma scan_pins_unfold:
  "i < length data \<Longrightarrow>
   scan_pins data i s
   = scan_pins data (fst (scan_pin data i s) + 1)
       ((snd (scan_pin data i s))\<lparr>total_pins := total_pins (snd (scan_pin data i s)) + 1\<rparr>)"
  by (subst scan_pins.simps) (simp add: case_prod_beta)

lemma scan_pins_stop: "\<not> i < length data \<Longrightarrow> scan_pins data i s = s"
  by (subst scan_pins.simps) simp

lemma scan_pins_induct2 [case_names stop step]:
  assumes stop: "\<And>i s. \<not> i < length data \<Longrightarrow> P i s"
    and step: "\<And>i s. i < length data \<Longrightarrow>
        P (fst (scan_pin data i s) + 1)
          ((snd (scan_pin data i s))\<lparr>total_pins := total_pins (snd (scan_pin data i s)) + 1\<rparr>)
        \<Longrightarrow> P i s"
  shows "P i s"
proof -
  have "\<forall>s. P i s"
  proof (induction i rule: measure_induct_rule [where f = "\<lambda>i. length data - i"])
    case (less i)
    show ?case
    proof
      fix s
      show "P i s"
      proof (cases "i < length data")
        case False
        then show ?thesis by (rule stop)
      next
        case True
        have "length data - (fst (scan_pin data i s) + 1) < length data - i"
          using True scan_pin_ge [of i data s] by linarith
        then have "P (fst (scan_pin data i s) + 1)
            ((snd (scan_pin data i s))\<lparr>total_pins := total_pins (snd (scan_pin data i s)) + 1\<rparr>)"
          using less by blast
        with True show ?thesis by (auto intro: step)
      qed
    qed
  qed
  then show ?thesis by blast
qed

lemma pin_count_outer_step:
  assumes "i < length data"
  shows "pin_count 0 False (drop i data)
         = Suc (pin_count 0 False (drop (Suc (fst (scan_pin data i s))) data))"
proof -
  have "pin_count 0 False (drop i data) = pin_count 0 True (drop (fst (scan_pin data i s)) data)"
  proof (cases "data ! i = END_OF_PIN_VALUE")
    case True
    then have "fst (scan_pin data i s) = i" by (simp add: scan_pin_stop)
    moreover have "drop i data = END_OF_PIN_VALUE # drop (Suc i) data"
      using assms True by (metis Cons_nth_drop_Suc)
    ultimately show ?thesis by (simp add: pin_count_def)
  next
    case False
    with assms have "descriptor_scan 0 False (drop i data) = descriptor_scan 0 True (drop i data)"
      by (simp add: descriptor_scan_step)
    then show ?thesis using scan_pin_descriptor [of i data s] by (simp add: pin_count_def)
  qed
  also have "\<dots> = Suc (pin_count 0 False (drop (Suc (fst (scan_pin data i s))) data))"
    using scan_pin_exit [of data i s] by (rule descriptor_scan_stop)
  finally show ?thesis .
qed

lemma scan_pins_pin_count:
  "total_pins (scan_pins data i s) = total_pins s + pin_count 0 False (drop i data)"
proof (induction i s rule: scan_pins_induct2 [where data = data])
  case (stop i s)
  then show ?case by (simp add: scan_pins_stop pin_count_def)
next
  case (step i s)
  then show ?case
    by (simp add: scan_pins_unfold scan_pin_total_pins pin_count_outer_step [of i data s])
qed


lemma note_capability_bound:
  "i < L \<Longrightarrow>
   num_analog_pins (note_capability b s) + (L - (i + capability_width b))
   \<le> num_analog_pins s + (L - i)"
  by (auto simp: note_capability_def capability_width_def)

lemma note_capability_offset:
  "analog_offset s \<le> total_pins s \<Longrightarrow> analog_offset (note_capability b s) \<le> total_pins s"
  by (simp add: note_capability_def)

lemma scan_pin_num_analog:
  "num_analog_pins (snd (scan_pin data i s)) + (length data - fst (scan_pin data i s))
   \<le> num_analog_pins s + (length data - i)"
proof (induction i s rule: scan_pin_induct2 [where data = data])
  case (stop i s)
  then show ?case by (simp add: scan_pin_stop)
next
  case (step i s)
  from step(3) note_capability_bound [OF step(1), of "data ! i" s]
  show ?case using step(1,2) by (simp add: scan_pin_unfold)
qed

lemma scan_pin_offset:
  "analog_offset s \<le> total_pins s \<Longrightarrow> analog_offset (snd (scan_pin data i s)) \<le> total_pins s"
proof (induction i s rule: scan_pin_induct2 [where data = data])
  case (stop i s)
  then show ?case by (simp add: scan_pin_stop)
next
  case (step i s)
  then show ?case by (simp add: scan_pin_unfold note_capability_offset)
qed

lemma scan_pins_bounds:
  "total_pins (scan_pins data i s) \<le> total_pins s + (length data - i)
   \<and> num_analog_pins (scan_pins data i s) \<le> num_analog_pins s + (length data - i)
   \<and> (analog_offset s \<le> total_pins s \<longrightarrow>
        analog_offset (scan_pins data i s) \<le> total_pins (scan_pins data i s))"
proof (induction i s rule: scan_pins_induct2 [where data = data])
  case (stop i s)
  then show ?case by (simp add: scan_pins_stop)
next
  case (step i s)
  let ?j = "fst (scan_pin data i s)" and ?s' = "snd (scan_pin data i s)"
  have ge: "i \<le> ?j" by (rule scan_pin_ge)
  have tp: "total_pins ?s' = total_pins s" by (rule scan_pin_total_pins)
  have na: "num_analog_pins ?s' + (length data - ?j) \<le> num_analog_pins s + (length data - i)"
    by (rule scan_pin_num_analog)
  have off: "analog_offset s \<le> total_pins s \<Longrightarrow> analog_offset ?s' \<le> total_pins s"
    by (rule scan_pin_offset)
  show ?case
    using step ge tp na off by (simp add: scan_pins_unfold) linarith
qed

subsection \<open>The claims about the parser\<close>

text \<open>
  C2 (as stated, refuted). On the payload \<open>[0x00, 0x01, 0x02, 0x0A, 0x7F, 0x7F]\<close> the
  parser does not end with two pins, one analog pin and offset 0: the \<^verbatim>\<open>INPUT\<close> byte
  at index 0 skips four bytes, so the \<^verbatim>\<open>ANALOG\<close> byte at index 2 is never looked at.
\<close>

theorem capability_example_counterexample:
  "\<not> (total_pins (onPinCapabilityResponseReceived [0x00, 0x01, 0x02, 0x0A, 0x7F, 0x7F] raw_device) = 2
      \<and> num_analog_pins (onPinCapabilityResponseReceived [0x00, 0x01, 0x02, 0x0A, 0x7F, 0x7F] raw_device) = 1
      \<and> analog_offset (onPinCapabilityResponseReceived [0x00, 0x01, 0x02, 0x0A, 0x7F, 0x7F] raw_device) = 0)"
  by (simp add: parser_eval raw_device_def)

text \<open>
  C2 (amended). Running the capability-response parser on the payload
  \<open>[0x00, 0x01, 0x02, 0x0A, 0x7F, 0x7F]\<close> yields \<open>total_pins = 2\<close>,
  \<open>num_analog_pins = 0\<close> and \<open>analog_offset = 0\<close>, whatever the device held before.
\<close>

theorem capability_example:
  "total_pins (onPinCapabilityResponseReceived [0x00, 0x01, 0x02, 0x0A, 0x7F, 0x7F] s) = 2
   \<and> num_analog_pins (onPinCapabilityResponseReceived [0x00, 0x01, 0x02, 0x0A, 0x7F, 0x7F] s) = 0
   \<and> analog_offset (onPinCapabilityResponseReceived [0x00, 0x01, 0x02, 0x0A, 0x7F, 0x7F] s) = 0"
  by (simp add: parser_eval)

text \<open>
  C3 (the code at the failing input). Two pins, each with one \<^verbatim>\<open>ANALOG\<close> capability:
  the first analog-capable pin is pin 0, yet the parser ends with \<open>analog_offset = 1\<close>.
  The test \<^verbatim>\<open>_analog_offset == 0\<close> takes the offset 0 captured at pin 0 for "not yet
  captured", and the analog capability of pin 1 overwrites it.
\<close>

theorem analog_offset_overwritten:
  "analog_offset (onPinCapabilityResponseReceived [0x02, 0x0A, 0x7F, 0x02, 0x0A, 0x7F] s) = 1
   \<and> num_analog_pins (onPinCapabilityResponseReceived [0x02, 0x0A, 0x7F, 0x02, 0x0A, 0x7F] s) = 2
   \<and> total_pins (onPinCapabilityResponseReceived [0x02, 0x0A, 0x7F, 0x02, 0x0A, 0x7F] s) = 2"
  by (simp add: parser_eval)

text \<open>
  C4 (as stated, refuted). The payload \<open>[0x02, 0x0A]\<close> is one \<^verbatim>\<open>ANALOG\<close> capability
  and then ends: it holds no terminator and so no complete descriptor, yet the parser
  leaves \<open>total_pins = 1\<close>. The inner loop stops at the end of the payload and
  \<^verbatim>\<open>_total_pins++\<close> runs all the same.
\<close>

theorem malformed_payload_counterexample:
  "END_OF_PIN_VALUE \<notin> set [0x02, 0x0A]
   \<and> complete_descriptors [0x02, 0x0A] = 0
   \<and> total_pins (onPinCapabilityResponseReceived [0x02, 0x0A] raw_device) = 1
   \<and> total_pins (onPinCapabilityResponseReceived [0x02, 0x0A] raw_device)
       \<noteq> complete_descriptors [0x02, 0x0A]"
  by (simp add: parser_eval raw_device_def complete_descriptors_def capability_width_def)

text \<open>
  C4 (amended). For every capability-response payload, malformed ones included, the scan
  terminates (\<open>scan_pin\<close> and \<open>scan_pins\<close> are total: each step of either loop moves
  the index forward and the index is bounded by the payload length) and leaves
  \<open>total_pins\<close> equal to the number of complete, \<open>0x7F\<close>-terminated descriptors found,
  plus one when the payload ends inside a descriptor that was entered and never
  terminated; \<open>total_pins\<close> never exceeds the payload length.
\<close>

theorem malformed_payload_total_pins:
  "total_pins (onPinCapabilityResponseReceived data s)
     = complete_descriptors data + (if incomplete_tail data then 1 else 0)
   \<and> total_pins (onPinCapabilityResponseReceived data s) \<le> length data"
proof -
  let ?s0 = "s\<lparr>total_pins := 0, analog_offset := 0, num_analog_pins := 0\<rparr>"
  have t: "total_pins (onPinCapabilityResponseReceived data s) = total_pins (scan_pins data 0 ?s0)"
    by (simp add: onPinCapabilityResponseReceived_def initialize_def raise_events_def)
  have "total_pins (scan_pins data 0 ?s0) = pin_count 0 False data"
    using scan_pins_pin_count [of data 0 ?s0] by simp
  moreover have "pin_count 0 False data
      = complete_descriptors data + (if incomplete_tail data then 1 else 0)"
    by (simp add: pin_count_def complete_descriptors_def incomplete_tail_def split: prod.splits)
  moreover have "total_pins (scan_pins data 0 ?s0) \<le> length data"
    using scan_pins_bounds [of data 0 ?s0] by simp
  ultimately show ?thesis using t by simp
qed

theorem malformed_payload_total_pins_witness:
  "total_pins (onPinCapabilityResponseReceived [0x00, 0x01, 0x01, 0x01, 0x7F, 0x02, 0x0A] raw_device) = 2
   \<and> complete_descriptors [0x00, 0x01, 0x01, 0x01, 0x7F, 0x02, 0x0A] = 1
   \<and> incomplete_tail [0x00, 0x01, 0x01, 0x01, 0x7F, 0x02, 0x0A]"
  using malformed_payload_total_pins [of "[0x00, 0x01, 0x01, 0x01, 0x7F, 0x02, 0x0A]" raw_device]
  by (simp add: complete_descriptors_def incomplete_tail_def capability_width_def
      END_OF_PIN_VALUE_def PinMode_defs)

section \<open>Pin names: results\<close>

lemmas parse_eval =
  parsePinFromAnalogString_def wcstol_def iswspace_def iswdigit_def decimal_def
  digit_value_def LONG_MAX_def LONG_MIN_def

lemma iswdigit_not_space: "iswdigit c \<Longrightarrow> \<not> iswspace c"
  by (auto simp: iswdigit_def iswspace_def)

lemma iswdigit_not_sign: "iswdigit c \<Longrightarrow> c \<noteq> CHR ''-'' \<and> c \<noteq> CHR ''+''"
  by (auto simp: iswdigit_def)

lemma digit_value_nonneg: "iswdigit c \<Longrightarrow> 0 \<le> digit_value c"
  by (simp add: iswdigit_def digit_value_def)

lemma digit_value_zero:
  assumes "iswdigit c" "digit_value c = 0"
  shows "c = CHR ''0''"
proof -
  have e: "(of_char c :: nat) = 48" using assms by (simp add: iswdigit_def digit_value_def)
  have "c = char_of (of_char c :: nat)" by simp
  also have "\<dots> = char_of (48 :: nat)" by (simp only: e)
  also have "\<dots> = CHR ''0''" by code_simp
  finally show ?thesis .
qed

lemma foldl_decimal_ge:
  "0 \<le> a \<Longrightarrow> \<forall>d \<in> set ds. iswdigit d \<Longrightarrow> a \<le> foldl (\<lambda>a c. 10 * a + digit_value c) a ds"
proof (induction ds arbitrary: a)
  case Nil
  then show ?case by simp
next
  case (Cons d ds)
  have "0 \<le> digit_value d" using Cons.prems by (simp add: digit_value_nonneg)
  then have "a \<le> 10 * a + digit_value d" "0 \<le> 10 * a + digit_value d"
    using Cons.prems(1) by simp_all
  moreover have "10 * a + digit_value d \<le> foldl (\<lambda>a c. 10 * a + digit_value c) (10 * a + digit_value d) ds"
    using Cons.prems calculation by (intro Cons.IH) simp_all
  ultimately show ?case by simp
qed

lemma decimal_nonneg: "\<forall>d \<in> set ds. iswdigit d \<Longrightarrow> 0 \<le> decimal ds"
  using foldl_decimal_ge [of 0 ds] by (simp add: decimal_def)

lemma decimal_zero:
  assumes "ds \<noteq> []" "\<forall>d \<in> set ds. iswdigit d" "decimal ds = 0"
  shows "hd ds = CHR ''0''"
proof -
  obtain d ds' where ds: "ds = d # ds'" using assms(1) by (cases ds) auto
  have dg: "iswdigit d" using assms(2) ds by simp
  have "digit_value d \<le> foldl (\<lambda>a c. 10 * a + digit_value c) (digit_value d) ds'"
    using assms(2) ds dg by (intro foldl_decimal_ge) (simp_all add: digit_value_nonneg)
  then have "digit_value d \<le> 0" using assms(3) ds by (simp add: decimal_def)
  then have "digit_value d = 0" using digit_value_nonneg [OF dg] by simp
  then show ?thesis using dg ds by (simp add: digit_value_zero)
qed

lemma wcstol_digits:
  assumes "ds \<noteq> []" "\<forall>d \<in> set ds. iswdigit d" "rest = [] \<or> \<not> iswdigit (hd rest)"
  shows "wcstol (ds @ rest) = min LONG_MAX (decimal ds)"
proof -
  obtain d ds' where ds: "ds = d # ds'" using assms(1) by (cases ds) auto
  have dg: "iswdigit d" using assms(2) ds by simp
  have s1: "dropWhile iswspace (ds @ rest) = ds @ rest"
    using ds dg by (simp add: iswdigit_not_space)
  have tw: "takeWhile iswdigit (ds @ rest) = ds"
  proof -
    have "takeWhile iswdigit rest = []" using assms(3) by (cases rest) auto
    then show ?thesis using assms(2) by (simp add: takeWhile_append2)
  qed
  have hd: "hd (ds @ rest) = d" using ds by simp
  show ?thesis
    unfolding wcstol_def s1 Let_def
    using iswdigit_not_sign [OF dg] tw hd ds by simp
qed

lemma wcstol_no_number:
  assumes "rest = [] \<or> (\<not> iswdigit (hd rest) \<and> \<not> iswspace (hd rest)
      \<and> hd rest \<noteq> CHR ''-'' \<and> hd rest \<noteq> CHR ''+'')"
  shows "wcstol rest = 0"
proof (cases rest)
  case Nil
  then show ?thesis by (simp add: wcstol_def decimal_def LONG_MAX_def)
next
  case (Cons x xs)
  with assms show ?thesis by (simp add: wcstol_def decimal_def LONG_MAX_def)
qed

lemma parse_digits:
  assumes "c = CHR ''A'' \<or> c = CHR ''a''" "ds \<noteq> []" "\<forall>d \<in> set ds. iswdigit d"
    "rest = [] \<or> \<not> iswdigit (hd rest)"
  shows "parsePinFromAnalogString (c # ds @ rest) = word_of_int (min LONG_MAX (decimal ds))"
proof -
  obtain d ds' where ds: "ds = d # ds'" using assms(2) by (cases ds) auto
  have w: "wcstol (ds @ rest) = min LONG_MAX (decimal ds)"
    using assms(2-4) by (rule wcstol_digits)
  have z: "min LONG_MAX (decimal ds) = 0 \<Longrightarrow> d = CHR ''0''"
  proof -
    assume "min LONG_MAX (decimal ds) = 0"
    then have "decimal ds = 0" by (simp add: min_def LONG_MAX_def split: if_splits)
    then show ?thesis using decimal_zero [OF assms(2,3)] ds by simp
  qed
  have l: "\<not> length (c # ds @ rest) < 2" using ds by simp
  have p: "(c # ds @ rest) ! 0 = c" "(c # ds @ rest) ! 1 = d" "drop 1 (c # ds @ rest) = ds @ rest"
    using ds by simp_all
  have pre: "c = CHR ''a'' \<or> c = CHR ''A''" using assms(1) by blast
  have "parsePinFromAnalogString (c # ds @ rest)
      = (if min LONG_MAX (decimal ds) = 0 \<and> d \<noteq> CHR ''0'' then 0xFF
         else word_of_int (min LONG_MAX (decimal ds)))"
    unfolding parsePinFromAnalogString_def
    by (simp only: l p pre w Let_def if_False simp_thms)
  also have "\<dots> = word_of_int (min LONG_MAX (decimal ds))"
    using z by (cases "min LONG_MAX (decimal ds) = 0") simp_all
  finally show ?thesis .
qed

lemma parse_no_number:
  assumes "c = CHR ''A'' \<or> c = CHR ''a''"
    "rest = [] \<or> (\<not> iswdigit (hd rest) \<and> \<not> iswspace (hd rest)
      \<and> hd rest \<noteq> CHR ''-'' \<and> hd rest \<noteq> CHR ''+'')"
  shows "parsePinFromAnalogString (c # rest) = 0xFF"
proof (cases rest)
  case Nil
  then show ?thesis by (simp add: parsePinFromAnalogString_def)
next
  case (Cons x xs)
  have "wcstol rest = 0" using assms(2) by (rule wcstol_no_number)
  moreover have "x \<noteq> CHR ''0''" using assms(2) Cons by (auto simp: iswdigit_def)
  ultimately show ?thesis using Cons by (simp add: parsePinFromAnalogString_def)
qed

lemma parse_bad_prefix:
  assumes "length str < 2 \<or> (hd str \<noteq> CHR ''A'' \<and> hd str \<noteq> CHR ''a'')"
  shows "parsePinFromAnalogString str = 0xFF"
proof (cases "length str < 2")
  case True
  then show ?thesis by (simp add: parsePinFromAnalogString_def)
next
  case False
  then have "str ! 0 = hd str" by (cases str) simp_all
  moreover have "hd str \<noteq> CHR ''A'' \<and> hd str \<noteq> CHR ''a''" using False assms by blast
  ultimately have "\<not> (str ! 0 = CHR ''a'' \<or> str ! 0 = CHR ''A'')" by simp
  then show ?thesis unfolding parsePinFromAnalogString_def by (simp only: if_True if_False simp_thms split: if_splits)
qed

text \<open>
  C6 (as stated, refuted). The name \<open>A2x\<close> has a non-digit after its digits, and it is
  accepted: \<^verbatim>\<open>wcstol\<close> converts the leading digits and the rest of the name is never
  looked at. The result is 2, not the failure value.
\<close>

theorem parsePinFromAnalogString_counterexample:
  "parsePinFromAnalogString ''A2x'' = 2 \<and> parsePinFromAnalogString ''A2x'' \<noteq> 0xFF"
  by (simp add: parse_eval)

text \<open>
  C6 (amended). \<open>parsePinFromAnalogString\<close> yields the parse-failure value \<open>0xFF\<close> for
  every name shorter than two characters, for every name whose first character is
  neither \<open>A\<close> nor \<open>a\<close>, and for every name whose second character is neither a digit,
  white space nor a sign. For a name made of \<open>A\<close> or \<open>a\<close>, a non-empty run of decimal
  digits and then anything that does not start with a digit, it returns the number the
  digits denote (clamped to \<^verbatim>\<open>LONG_MAX\<close>, cut to 8 bits): characters after the digits
  are ignored. In particular \<open>A2\<close> parses to 2 and so does \<open>A2x\<close>, while \<open>B2\<close>,
  \<open>A\<close> and the empty name fail.
\<close>

theorem parsePinFromAnalogString_accepts:
  "(length str < 2 \<or> (hd str \<noteq> CHR ''A'' \<and> hd str \<noteq> CHR ''a'')
      \<longrightarrow> parsePinFromAnalogString str = 0xFF)
   \<and> ((c = CHR ''A'' \<or> c = CHR ''a'')
        \<and> (rest = [] \<or> (\<not> iswdigit (hd rest) \<and> \<not> iswspace (hd rest)
              \<and> hd rest \<noteq> CHR ''-'' \<and> hd rest \<noteq> CHR ''+''))
      \<longrightarrow> parsePinFromAnalogString (c # rest) = 0xFF)
   \<and> ((c = CHR ''A'' \<or> c = CHR ''a'') \<and> ds \<noteq> [] \<and> (\<forall>d \<in> set ds. iswdigit d)
        \<and> (trailing = [] \<or> \<not> iswdigit (hd trailing))
      \<longrightarrow> parsePinFromAnalogString (c # ds @ trailing)
          = word_of_int (min LONG_MAX (decimal ds)))
   \<and> parsePinFromAnalogString ''A2'' = 2
   \<and> parsePinFromAnalogString ''A2x'' = 2
   \<and> parsePinFromAnalogString ''B2'' = 0xFF
   \<and> parsePinFromAnalogString ''A'' = 0xFF
   \<and> parsePinFromAnalogString [] = 0xFF"
proof (intro conjI impI)
  assume "length str < 2 \<or> (hd str \<noteq> CHR ''A'' \<and> hd str \<noteq> CHR ''a'')"
  then show "parsePinFromAnalogString str = 0xFF" by (rule parse_bad_prefix)
next
  assume "(c = CHR ''A'' \<or> c = CHR ''a'')
        \<and> (rest = [] \<or> (\<not> iswdigit (hd rest) \<and> \<not> iswspace (hd rest)
              \<and> hd rest \<noteq> CHR ''-'' \<and> hd rest \<noteq> CHR ''+''))"
  then show "parsePinFromAnalogString (c # rest) = 0xFF" by (intro parse_no_number) simp_all
next
  assume "(c = CHR ''A'' \<or> c = CHR ''a'') \<and> ds \<noteq> [] \<and> (\<forall>d \<in> set ds. iswdigit d)
        \<and> (trailing = [] \<or> \<not> iswdigit (hd trailing))"
  then show "parsePinFromAnalogString (c # ds @ trailing) = word_of_int (min LONG_MAX (decimal ds))"
    by (intro parse_digits) simp_all
qed (simp_all add: parse_eval)

theorem parsePinFromAnalogString_accepts_witness:
  "parsePinFromAnalogString ''B7'' = 0xFF
   \<and> parsePinFromAnalogString ''Ax1'' = 0xFF
   \<and> parsePinFromAnalogString ''a12x'' = 12"
  using parsePinFromAnalogString_accepts [of "''B7''" "CHR ''A''" "''x1''" "''12''" "''x''"]
    parsePinFromAnalogString_accepts [of "''B7''" "CHR ''a''" "''x1''" "''12''" "''x''"]
  by (simp add: iswspace_def iswdigit_def decimal_def digit_value_def LONG_MAX_def)

section \<open>The pin cache: results\<close>

lemma PinMode_distinct:
  "OUTPUT \<noteq> INPUT" "OUTPUT \<noteq> ANALOG" "OUTPUT \<noteq> PWM"
  "INPUT \<noteq> ANALOG" "INPUT \<noteq> PWM" "ANALOG \<noteq> PWM"
  "INPUT \<noteq> OUTPUT" "ANALOG \<noteq> OUTPUT" "PWM \<noteq> OUTPUT"
  "ANALOG \<noteq> INPUT" "PWM \<noteq> INPUT" "PWM \<noteq> ANALOG"
  by (simp_all add: PinMode_defs)

lemma ready_device_fields:
  "pin_mode ready_device = replicate 128 OUTPUT"
  "digital_port ready_device = replicate 16 0"
  "subscribed_ports ready_device = replicate 16 0"
  "analog_pins ready_device = replicate 6 0"
  "total_pins ready_device = 0" "analog_offset ready_device = 0"
  "num_analog_pins ready_device = 0"
  "firmata ready_device = []" "events ready_device = [DeviceReady]"
  by (simp_all add: ready_device_def raw_device_def onPinCapabilityResponseReceived_def
      initialize_def raise_events_def scan_pins_stop)

lemma small_board_fields:
  "pin_mode small_board = replicate 128 OUTPUT"
  "digital_port small_board = replicate 16 0"
  "subscribed_ports small_board = replicate 16 0"
  "analog_pins small_board = replicate 6 0"
  "total_pins small_board = 4" "analog_offset small_board = 2"
  "num_analog_pins small_board = 2"
  "firmata small_board = []" "events small_board = [DeviceReady]"
  by (simp_all add: small_board_def raw_device_def parser_eval)

subsection \<open>Port masks\<close>

lemma port_mask_test: "(x AND push_bit k 1 = 0) = (\<not> bit x k)" for x :: u8
  by (simp add: and_exp_eq_0_iff_not_bit)

lemma port_mask_set: "k < 8 \<Longrightarrow> bit ((d :: u8) OR push_bit k 1) k"
  by (simp add: bit_simps)

lemma port_mask_clear: "\<not> bit ((d :: u8) AND NOT (push_bit k 1)) k"
  by (simp add: bit_simps)

lemma same_port_bit: "p div 8 = q div 8 \<Longrightarrow> (p mod 8 = q mod 8) = (p = q)" for p q :: nat
  by (metis div_mult_mod_eq)

subsection \<open>The subscription invariant\<close>

lemma pinMode_Some:
  assumes "pinMode pin mode s = Some s'"
  shows "unat pin < length (pin_mode s)"
    and "pin_mode s' = (pin_mode s)[unat pin := mode]"
    and "subscribed_ports s' =
          (if mode = INPUT then
             (subscribed_ports s)[unat pin div 8 :=
                subscribed_ports s ! (unat pin div 8) OR push_bit (unat pin mod 8) 1]
           else if pin_mode s ! unat pin = INPUT then
             (subscribed_ports s)[unat pin div 8 :=
                subscribed_ports s ! (unat pin div 8) AND NOT (push_bit (unat pin mod 8) 1)]
           else subscribed_ports s)"
    and "mode = INPUT \<or> pin_mode s ! unat pin = INPUT \<Longrightarrow> unat pin div 8 < length (subscribed_ports s)"
    and "length (digital_port s') = length (digital_port s)"
    and "analog_pins s' = analog_pins s"
    and "total_pins s' = total_pins s" "analog_offset s' = analog_offset s" "num_analog_pins s' = num_analog_pins s"
    and "events s' = events s"
  using assms unfolding pinMode_def getPinMap_def
  by (auto simp: rd_def wr_def send_def Let_def split: if_splits bind_splits)

lemma subscription_invariant_bit:
  "subscription_invariant s =
     (\<forall>p < length (pin_mode s). p div 8 < length (subscribed_ports s) \<longrightarrow>
        bit (subscribed_ports s ! (p div 8)) (p mod 8) = (pin_mode s ! p = INPUT))"
  by (auto simp: subscription_invariant_def and_exp_eq_0_iff_not_bit)

lemma subscription_invariant_cong:
  "pin_mode s' = pin_mode s \<Longrightarrow> subscribed_ports s' = subscribed_ports s \<Longrightarrow>
   subscription_invariant s' = subscription_invariant s"
  by (simp add: subscription_invariant_def)

lemma subscription_invariant_pinMode:
  assumes inv: "subscription_invariant s" and pm: "pinMode pin mode s = Some s'"
  shows "subscription_invariant s'"
proof -
  let ?q = "unat pin"
  note f = pinMode_Some [OF pm]
  have k: "?q mod 8 < 8" by simp
  show ?thesis
    unfolding subscription_invariant_bit
  proof (intro allI impI)
    fix p
    assume p: "p < length (pin_mode s')" and pp: "p div 8 < length (subscribed_ports s')"
    have p0: "p < length (pin_mode s)" using p f(2) by simp
    have pp0: "p div 8 < length (subscribed_ports s)" using pp f(3) by (simp split: if_splits)
    have old: "bit (subscribed_ports s ! (p div 8)) (p mod 8) = (pin_mode s ! p = INPUT)"
      using inv p0 pp0 unfolding subscription_invariant_bit by blast
    show "bit (subscribed_ports s' ! (p div 8)) (p mod 8) = (pin_mode s' ! p = INPUT)"
    proof (cases "p div 8 = ?q div 8")
      case False
      then have "p \<noteq> ?q" by auto
      with False old p0 pp0 show ?thesis
        unfolding f(2) f(3) by (simp split: if_splits)
    next
      case True
      note sp = same_port_bit [OF True]
      show ?thesis
      proof (cases "mode = INPUT")
        case m: True
        then show ?thesis
          using old p0 pp0 True sp k unfolding f(2) f(3)
          by (auto simp: bit_simps nth_list_update)
      next
        case m: False
        show ?thesis
        proof (cases "pin_mode s ! ?q = INPUT")
          case o: True
          then show ?thesis
            using old p0 pp0 True sp k m unfolding f(2) f(3)
            by (auto simp: bit_simps nth_list_update)
        next
          case o: False
          then show ?thesis
            using old p0 pp0 True sp k m unfolding f(2) f(3)
            by (auto simp: bit_simps nth_list_update)
        qed
      qed
    qed
  qed
qed


lemma subscription_invariant_initialized:
  "subscription_invariant (onPinCapabilityResponseReceived data s)"
  by (simp add: subscription_invariant_def onPinCapabilityResponseReceived_def initialize_def
      raise_events_def PinMode_defs)

lemma subscription_invariant_pinMode_named:
  "subscription_invariant s \<Longrightarrow> pinMode_named name mode s = Some s' \<Longrightarrow> subscription_invariant s'"
  by (auto simp: pinMode_named_def Let_def split: if_splits
      intro: subscription_invariant_pinMode)

lemma subscription_invariant_digitalWrite_port:
  "digitalWrite_port port pmask st s = Some s' \<Longrightarrow>
   subscription_invariant s' = subscription_invariant s"
  by (auto simp: digitalWrite_port_def rd_def send_def Let_def split: if_splits bind_splits
      intro!: subscription_invariant_cong)

lemma subscription_invariant_digitalWrite:
  assumes "subscription_invariant s" "digitalWrite pin st s = Some s'"
  shows "subscription_invariant s'"
proof -
  obtain m where m: "rd (pin_mode s) (unat pin) = Some m"
    using assms(2) by (auto simp: digitalWrite_def getPinMap_def split: bind_splits)
  show ?thesis
  proof (cases "m = OUTPUT")
    case True
    with assms m show ?thesis
      by (simp add: digitalWrite_def getPinMap_def subscription_invariant_digitalWrite_port)
  next
    case False
    show ?thesis
    proof (cases "m = PWM")
      case p: False
      with False assms m show ?thesis by (simp add: digitalWrite_def getPinMap_def)
    next
      case p: True
      with False assms(2) m obtain s1 where s1: "pinMode pin OUTPUT s = Some s1"
        and w: "digitalWrite_port (unat pin div 8) (push_bit (unat pin mod 8) 1) st s1 = Some s'"
        by (auto simp: digitalWrite_def getPinMap_def split: bind_splits)
      from subscription_invariant_pinMode [OF assms(1) s1] w show ?thesis
        by (simp add: subscription_invariant_digitalWrite_port)
    qed
  qed
qed

lemma subscription_invariant_digitalRead:
  assumes "subscription_invariant s" "digitalRead pin s = Some (r, s')"
  shows "subscription_invariant s'"
  using assms
  by (auto simp: digitalRead_def getPinMap_def split: bind_splits if_splits
      intro: subscription_invariant_pinMode)

lemma subscription_invariant_analogWrite:
  assumes "subscription_invariant s" "analogWrite pin v s = Some s'"
  shows "subscription_invariant s'"
proof -
  obtain m where m: "rd (pin_mode s) (unat pin) = Some m"
    using assms(2) by (auto simp: analogWrite_def split: bind_splits)
  show ?thesis
  proof (cases "m = PWM")
    case True
    with assms m have "s' = send [SendAnalog pin v] s" by (simp add: analogWrite_def)
    with assms(1) show ?thesis by (simp add: send_def subscription_invariant_def)
  next
    case False
    show ?thesis
    proof (cases "m = OUTPUT")
      case o: False
      with False assms m show ?thesis by (simp add: analogWrite_def)
    next
      case o: True
      with False assms(2) m obtain s1 pm where s1: "pinMode pin PWM s = Some s1"
        and pm: "wr (pin_mode s1) (unat pin) PWM = Some pm"
        and s': "s' = send [SendAnalog pin v] (s1\<lparr>pin_mode := pm\<rparr>)"
        by (auto simp: analogWrite_def split: bind_splits)
      have "pm = pin_mode s1"
        using pm pinMode_Some(2) [OF s1] by (auto simp: wr_def split: if_splits)
      then have "subscription_invariant s' = subscription_invariant s1"
        using s' by (simp add: send_def subscription_invariant_def)
      with subscription_invariant_pinMode [OF assms(1) s1] show ?thesis by simp
    qed
  qed
qed

lemma subscription_invariant_analogRead:
  assumes "subscription_invariant s" "analogRead pin s = Some (r, s')"
  shows "subscription_invariant s'"
  using assms
  by (auto simp: analogRead_def Let_def split: bind_splits if_splits
      intro: subscription_invariant_pinMode)

lemma subscription_invariant_analogRead_named:
  assumes "subscription_invariant s" "analogRead_named name s = Some (r, s')"
  shows "subscription_invariant s'"
  using assms
  by (auto simp: analogRead_named_def Let_def split: if_splits
      intro: subscription_invariant_analogRead)

lemma subscription_invariant_onDigitalReport:
  "subscription_invariant s \<Longrightarrow> onDigitalReport port v s = Some s' \<Longrightarrow> subscription_invariant s'"
  by (auto simp: onDigitalReport_def raise_events_def Let_def subscription_invariant_def
      split: bind_splits)

lemma subscription_invariant_onAnalogReport:
  "subscription_invariant s \<Longrightarrow> onAnalogReport pin v s = Some s' \<Longrightarrow> subscription_invariant s'"
  by (auto simp: onAnalogReport_def raise_events_def subscription_invariant_def
      split: bind_splits)

lemma subscription_invariant_perform:
  assumes "subscription_invariant s" "perform a s = Some s'"
  shows "subscription_invariant s'"
proof (cases a)
  case (PinMode pin mode)
  with assms show ?thesis by (auto intro: subscription_invariant_pinMode)
next
  case (PinModeNamed name mode)
  with assms show ?thesis by (auto intro: subscription_invariant_pinMode_named)
next
  case (DigitalWrite pin st)
  with assms show ?thesis by (auto intro: subscription_invariant_digitalWrite)
next
  case (DigitalRead pin)
  with assms show ?thesis by (auto intro: subscription_invariant_digitalRead)
next
  case (AnalogWrite pin v)
  with assms show ?thesis by (auto intro: subscription_invariant_analogWrite)
next
  case (AnalogRead pin)
  with assms show ?thesis by (auto intro: subscription_invariant_analogRead)
next
  case (AnalogReadNamed name)
  with assms show ?thesis by (auto intro: subscription_invariant_analogRead_named)
next
  case (GetPinMode pin)
  with assms show ?thesis by auto
next
  case (GetPinModeNamed name)
  with assms show ?thesis by auto
next
  case (DigitalReport port v)
  with assms show ?thesis by (auto intro: subscription_invariant_onDigitalReport)
next
  case (AnalogReport pin v)
  with assms show ?thesis by (auto intro: subscription_invariant_onAnalogReport)
next
  case (CapabilityResponse data)
  with assms show ?thesis by (auto intro: subscription_invariant_initialized)
qed

subsection \<open>The claims about the pin cache\<close>

text \<open>
  C1 (as stated, refuted). On the initialised device pin 5 is an output (its mode is
  \<^verbatim>\<open>OUTPUT\<close>, its subscription bit is clear) and its cached bit is 0, the last value
  written locally. A report for port 0 that carries bit 5 as 1 sets the cached bit:
  only the output bits that are high are or-ed into the reported byte, a low output bit
  takes the reported value.
\<close>

theorem onDigitalReport_low_output_counterexample:
  "pin_mode ready_device ! 5 = OUTPUT
   \<and> \<not> bit (subscribed_ports ready_device ! unat (0 :: u8)) 5
   \<and> \<not> bit (digital_port ready_device ! unat (0 :: u8)) 5
   \<and> onDigitalReport 0 0x20 ready_device \<noteq> None
   \<and> bit (digital_port (the (onDigitalReport 0 0x20 ready_device)) ! unat (0 :: u8)) 5"
  by (simp add: onDigitalReport_def rd_def raise_events_def Let_def ready_device_fields
      PinMode_defs)

text \<open>
  C1 (amended). For every inbound digital-port report \<open>(port, val)\<close> processed by
  \<open>onDigitalReport\<close> (the port within the two port arrays, the device state satisfying
  the subscription invariant of C10), and for every pin \<open>p\<close> of that port whose cached
  mode is \<^verbatim>\<open>OUTPUT\<close>: the pin's subscription bit is clear, and the pin's bit in the
  cached port byte after the report is its bit before the report or-ed with the
  reported bit. So an output bit that is high stays high whatever the report carries,
  and an output bit that is low keeps its value exactly when the report carries that
  bit as 0.
\<close>

theorem onDigitalReport_output_bits:
  assumes "subscription_invariant s"
    and "p < length (pin_mode s)" and "pin_mode s ! p = OUTPUT"
    and "p div 8 = unat port"
    and "unat port < length (subscribed_ports s)" and "unat port < length (digital_port s)"
  shows "\<not> bit (subscribed_ports s ! unat port) (p mod 8)
     \<and> (\<exists>s'. onDigitalReport port val s = Some s'
           \<and> bit (digital_port s' ! unat port) (p mod 8)
               = (bit (digital_port s ! unat port) (p mod 8) \<or> bit val (p mod 8)))"
proof -
  have "bit (subscribed_ports s ! (p div 8)) (p mod 8) = (pin_mode s ! p = INPUT)"
    using assms(1,2,4,5) unfolding subscription_invariant_bit by metis
  then have clear: "\<not> bit (subscribed_ports s ! unat port) (p mod 8)"
    using assms(3,4) by (simp add: PinMode_distinct)
  have k: "p mod 8 < 8" by simp
  show ?thesis
    using clear k assms(5,6)
    by (auto simp: onDigitalReport_def rd_def raise_events_def Let_def bit_simps)
qed

theorem onDigitalReport_output_bits_witness:
  "subscription_invariant (ready_device\<lparr>digital_port := (digital_port ready_device)[0 := 0x20]\<rparr>)
   \<and> pin_mode (ready_device\<lparr>digital_port := (digital_port ready_device)[0 := 0x20]\<rparr>) ! 5 = OUTPUT
   \<and> bit (digital_port (ready_device\<lparr>digital_port := (digital_port ready_device)[0 := 0x20]\<rparr>) ! unat (0 :: u8)) 5
   \<and> (\<exists>s'. onDigitalReport 0 0 (ready_device\<lparr>digital_port := (digital_port ready_device)[0 := 0x20]\<rparr>) = Some s'
         \<and> bit (digital_port s' ! unat (0 :: u8)) 5)"
proof -
  let ?s = "ready_device\<lparr>digital_port := (digital_port ready_device)[0 := 0x20]\<rparr>"
  have "subscription_invariant ready_device"
    unfolding ready_device_def by (rule subscription_invariant_initialized)
  then have i: "subscription_invariant ?s"
    by (simp add: subscription_invariant_cong [of ?s ready_device])
  have h: "5 < length (pin_mode ?s)" "pin_mode ?s ! 5 = OUTPUT" "5 div 8 = unat (0 :: u8)"
    "unat (0 :: u8) < length (subscribed_ports ?s)" "unat (0 :: u8) < length (digital_port ?s)"
    by (simp_all add: ready_device_fields)
  from onDigitalReport_output_bits [OF i h, of 0] i h show ?thesis
    by (simp add: ready_device_fields)
qed

text \<open>
  C5 (the code at the failing input). A board of four pins whose pins 2 and 3 are the
  analog pins \<open>A0\<close> and \<open>A1\<close>, so \<open>analog_offset = 2\<close>. \<open>A0\<close> is put in analog mode by
  name (which reaches pin 2) and a report stores 512 for analog pin 0. The numeric
  read of analog pin 0 returns 512. The named read of \<open>A0\<close> hands \<open>0 + 2\<close> to the
  numeric overload, which adds the offset again: the mode consulted is that of pin 4
  (\<^verbatim>\<open>OUTPUT\<close>), and the result is the sentinel \<open>0xFFFF\<close>.
\<close>

theorem analogRead_named_offset_twice:
  "analog_offset small_board = 2
   \<and> parsePinFromAnalogString ''A0'' = 0
   \<and> (\<exists>s1 s2. pinMode_named ''A0'' ANALOG small_board = Some s1
         \<and> pin_mode s1 ! 2 = ANALOG \<and> pin_mode s1 ! 4 = OUTPUT
         \<and> onAnalogReport 0 512 s1 = Some s2
         \<and> analogRead 0 s2 = Some (512, s2)
         \<and> analogRead_named ''A0'' s2 = Some (0xFFFF, s2))"
proof -
  let ?s1 = "send [Lock, WriteCommand SET_PIN_MODE 0, Write 2, Write ANALOG, Flush, Unlock]
      (small_board\<lparr>pin_mode := (pin_mode small_board)[2 := ANALOG]\<rparr>)"
  let ?s2 = "raise_events [AnalogPinUpdated 0 512]
      (?s1\<lparr>analog_pins := (analog_pins ?s1)[0 := 512]\<rparr>)"
  have p: "parsePinFromAnalogString ''A0'' = 0" by (simp add: parse_eval)
  have a: "pinMode_named ''A0'' ANALOG small_board = Some ?s1"
    by (simp add: pinMode_named_def p pinMode_def getPinMap_def rd_def wr_def send_def
        small_board_fields PinMode_distinct)
  have b: "onAnalogReport 0 512 ?s1 = Some ?s2"
    by (simp add: onAnalogReport_def wr_def send_def small_board_fields)
  have m: "pin_mode ?s2 = (replicate 128 OUTPUT)[2 := ANALOG]"
    "analog_offset ?s2 = 2" "num_analog_pins ?s2 = 2"
    "analog_pins ?s2 = (replicate 6 0)[0 := 512]"
    by (simp_all add: raise_events_def send_def small_board_fields)
  have c: "analogRead 0 ?s2 = Some (512, ?s2)"
    unfolding analogRead_def analogRead_value_def Let_def m rd_def by simp
  have d: "analogRead_named ''A0'' ?s2 = Some (0xFFFF, ?s2)"
    unfolding analogRead_named_def p analogRead_def analogRead_value_def Let_def m rd_def
    by (simp add: PinMode_distinct)
  have e: "pin_mode ?s1 ! 2 = ANALOG" "pin_mode ?s1 ! 4 = OUTPUT"
    by (simp_all add: send_def small_board_fields)
  from a b c d e p show ?thesis by (simp add: small_board_fields)
qed

text \<open>
  C7. For every pin whose cached mode consulted by \<open>analogRead\<close> (the mode of pin
  \<open>pin + analog_offset\<close>, a valid index of the mode array) is neither \<^verbatim>\<open>ANALOG\<close> nor
  \<^verbatim>\<open>INPUT\<close>, \<open>analogRead\<close> returns the sentinel \<open>0xFFFF\<close> and leaves the whole device
  state unchanged. It looks up no cached analog value: the result is the same whatever
  the array of analog values is, the empty array included.
\<close>

theorem analogRead_wrong_mode:
  assumes "rd (pin_mode s) (unat (pin + of_nat (analog_offset s))) = Some m"
    and "m \<noteq> ANALOG" and "m \<noteq> INPUT"
  shows "analogRead pin s = Some (0xFFFF, s)
     \<and> analogRead pin (s\<lparr>analog_pins := a\<rparr>) = Some (0xFFFF, s\<lparr>analog_pins := a\<rparr>)"
  using assms by (simp add: analogRead_def Let_def)

theorem analogRead_wrong_mode_witness:
  "rd (pin_mode (ready_device\<lparr>pin_mode := (pin_mode ready_device)[3 := PWM]\<rparr>)) 3 = Some PWM
   \<and> analogRead 3 (ready_device\<lparr>pin_mode := (pin_mode ready_device)[3 := PWM]\<rparr>)
       = Some (0xFFFF, ready_device\<lparr>pin_mode := (pin_mode ready_device)[3 := PWM]\<rparr>)
   \<and> analogRead 3 (ready_device\<lparr>pin_mode := (pin_mode ready_device)[3 := PWM], analog_pins := []\<rparr>)
       = Some (0xFFFF, ready_device\<lparr>pin_mode := (pin_mode ready_device)[3 := PWM], analog_pins := []\<rparr>)"
  using analogRead_wrong_mode
    [of "ready_device\<lparr>pin_mode := (pin_mode ready_device)[3 := PWM]\<rparr>" 3 PWM "[]"]
  by (simp add: ready_device_fields rd_def PinMode_distinct)

text \<open>
  C8. For every pin \<open>p\<close> whose cached mode is \<^verbatim>\<open>OUTPUT\<close> (and whose port is within the
  port array) and every state \<open>st\<close>, \<open>digitalWrite p st\<close> succeeds, and \<open>digitalRead p\<close>
  right after it returns \<open>st\<close> and leaves the state as the write left it.
\<close>

theorem digitalWrite_digitalRead_roundtrip:
  assumes "rd (pin_mode s) (unat p) = Some OUTPUT"
    and "unat p div 8 < length (digital_port s)"
  shows "\<exists>s1. digitalWrite p st s = Some s1 \<and> digitalRead p s1 = Some (st, s1)"
proof -
  let ?port = "unat p div 8" and ?mask = "push_bit (unat p mod 8) 1 :: u8"
  let ?d = "digital_port s ! ?port"
  let ?d' = "if PinState_byte st \<noteq> 0 then ?d OR ?mask else ?d AND NOT ?mask"
  let ?s1 = "send [SendDigitalPort ?port ?d'] (s\<lparr>digital_port := (digital_port s)[?port := ?d']\<rparr>)"
  have w: "digitalWrite p st s = Some ?s1"
    using assms by (simp add: digitalWrite_def getPinMap_def digitalWrite_port_def rd_def Let_def)
  have m: "rd (pin_mode ?s1) (unat p) = Some OUTPUT"
    using assms(1) by (simp add: send_def)
  have d: "rd (digital_port ?s1) ?port = Some ?d'"
    using assms(2) by (simp add: send_def rd_def)
  have k: "unat p mod 8 < 8" by simp
  have b: "(?d' AND ?mask > 0) = (st = HIGH)"
  proof (cases st)
    case LOW
    then show ?thesis
      using port_mask_clear [of ?d "unat p mod 8"]
      by (simp only: word_greater_zero_iff port_mask_test PinState_byte.simps if_False simp_thms)
        simp
  next
    case HIGH
    then show ?thesis
      using port_mask_set [OF k, of ?d]
      by (simp only: word_greater_zero_iff port_mask_test PinState_byte.simps if_True simp_thms)
        simp
  qed
  have "PinState_of_bool (?d' AND ?mask > 0) = st"
    unfolding b by (cases st) (simp_all add: PinState_of_bool_def)
  then have r: "digitalRead p ?s1 = Some (st, ?s1)"
    using m d by (simp add: digitalRead_def getPinMap_def PinMode_distinct)
  from w r show ?thesis by blast
qed

theorem digitalWrite_digitalRead_roundtrip_witness:
  "rd (pin_mode ready_device) (unat (13 :: u8)) = Some OUTPUT
   \<and> (\<exists>s1. digitalWrite 13 HIGH ready_device = Some s1 \<and> digitalRead 13 s1 = Some (HIGH, s1))
   \<and> (\<exists>s1. digitalWrite 13 LOW ready_device = Some s1 \<and> digitalRead 13 s1 = Some (LOW, s1))"
proof -
  have h: "rd (pin_mode ready_device) (unat (13 :: u8)) = Some OUTPUT"
    "unat (13 :: u8) div 8 < length (digital_port ready_device)"
    by (simp_all add: ready_device_fields rd_def)
  from digitalWrite_digitalRead_roundtrip [OF h, of HIGH]
    digitalWrite_digitalRead_roundtrip [OF h, of LOW] h
  show ?thesis by simp
qed

text \<open>
  C9. For every inbound analog-pin report \<open>(pin, v)\<close> whose pin is within the array of
  analog values, \<open>onAnalogReport\<close> stores \<open>v\<close> as the cached analog value of that pin
  and raises exactly one analog-pin event carrying \<open>(pin, v)\<close>, and changes nothing
  else. The previous value plays no part: two consecutive reports of the same value on
  the same pin raise two events.
\<close>

theorem onAnalogReport_stores_and_notifies:
  assumes "unat pin < length (analog_pins s)"
  shows "onAnalogReport pin v s
         = Some (s\<lparr>analog_pins := (analog_pins s)[unat pin := v],
                  events := events s @ [AnalogPinUpdated pin v]\<rparr>)
     \<and> (\<exists>s1 s2. onAnalogReport pin v s = Some s1 \<and> onAnalogReport pin v s1 = Some s2
           \<and> analog_pins s2 ! unat pin = v
           \<and> events s2 = events s @ [AnalogPinUpdated pin v, AnalogPinUpdated pin v])"
  using assms by (simp add: onAnalogReport_def wr_def raise_events_def)

theorem onAnalogReport_stores_and_notifies_witness:
  "unat (2 :: u8) < length (analog_pins ready_device)
   \<and> onAnalogReport 2 512 ready_device
       = Some (ready_device\<lparr>analog_pins := (analog_pins ready_device)[2 := 512],
                            events := events ready_device @ [AnalogPinUpdated 2 512]\<rparr>)
   \<and> (\<exists>s1 s2. onAnalogReport 2 512 ready_device = Some s1 \<and> onAnalogReport 2 512 s1 = Some s2
         \<and> events s2 = [DeviceReady, AnalogPinUpdated 2 512, AnalogPinUpdated 2 512])"
proof -
  have h: "unat (2 :: u8) < length (analog_pins ready_device)"
    by (simp add: ready_device_fields)
  from onAnalogReport_stores_and_notifies [OF h, of 512] h show ?thesis
    by (auto simp: ready_device_fields)
qed

text \<open>
  C10. In every state the device reaches - from the initialisation by a capability
  response (all modes \<^verbatim>\<open>OUTPUT\<close>, all masks zero), through any sequence of public
  methods (\<open>pinMode\<close>, \<open>digitalWrite\<close>, \<open>digitalRead\<close>, \<open>analogWrite\<close>, \<open>analogRead\<close>,
  their named overloads and their mode-correcting paths) and report callbacks - the
  subscription bit of every pin is set exactly when the pin's cached mode is
  \<^verbatim>\<open>INPUT\<close>.
\<close>

theorem reachable_subscription_invariant:
  "reachable s \<Longrightarrow> subscription_invariant s"
proof (induction rule: reachable.induct)
  case (initialized data s0)
  show ?case by (rule subscription_invariant_initialized)
next
  case (performed s a s')
  then show ?case by (auto intro: subscription_invariant_perform)
qed

theorem reachable_subscription_invariant_witness:
  "\<exists>s. perform (PinMode 5 INPUT) ready_device = Some s
     \<and> reachable s \<and> subscription_invariant s
     \<and> pin_mode s ! 5 = INPUT \<and> bit (subscribed_ports s ! 0) 5
     \<and> pin_mode s ! 6 = OUTPUT \<and> \<not> bit (subscribed_ports s ! 0) 6"
proof -
  let ?s = "send [Lock, WriteCommand SET_PIN_MODE 0, Write 5, Write INPUT,
                  WriteCommand REPORT_DIGITAL_PIN 0, Write 0x20, Flush, Unlock]
      (ready_device\<lparr>subscribed_ports := (subscribed_ports ready_device)[0 := 0x20],
                    pin_mode := (pin_mode ready_device)[5 := INPUT]\<rparr>)"
  have p: "perform (PinMode 5 INPUT) ready_device = Some ?s"
    by (simp add: pinMode_def getPinMap_def rd_def wr_def send_def ready_device_fields
        PinMode_distinct)
  have "reachable ready_device"
    unfolding ready_device_def by (rule reachable.initialized)
  then have r: "reachable ?s" using p by (rule reachable.performed)
  from reachable_subscription_invariant [OF r] p r show ?thesis
    by (simp add: send_def ready_device_fields)
qed

end
